theory Spec2Isabelle
  imports Main "HOL-Library.Sublist"
begin

section \<open>Strings\<close>

text \<open>
  The build script \<^verbatim>\<open>scripts/gulpfiles/build_tasks.js\<close> works on JavaScript strings.
  They are modelled as \<^typ>\<open>string\<close>, a list of 8-bit characters: file contents and
  paths are taken to be ASCII (or bytes), so the two Unicode line terminators
  U+2028 and U+2029 that a JavaScript regular expression also excludes from \<^verbatim>\<open>.\<close>
  do not occur.
\<close>

abbreviation LF :: char where
  "LF \<equiv> CHR 0x0A"

abbreviation CR :: char where
  "CR \<equiv> CHR 0x0D"

text \<open>
  \<^verbatim>\<open>Array.prototype.join\<close> on an array of strings: the elements separated by
  \<open>sep\<close>; the empty array gives the empty string.
\<close>

fun join :: "string \<Rightarrow> string list \<Rightarrow> string" where
  "join sep [] = []"
| "join sep [x] = x"
| "join sep (x # y # ys) = x @ sep @ join sep (y # ys)"

text \<open>
  \<^verbatim>\<open>String.prototype.split\<close> with a separator of one character: the string is cut
  at every occurrence of the separator, so the result is never empty and
  \<^verbatim>\<open>''.split(c)\<close> is \<^verbatim>\<open>['']\<close>.
\<close>

fun split :: "char \<Rightarrow> string \<Rightarrow> string list" where
  "split c [] = [[]]"
| "split c (x # xs) =
     (if x = c then [] # split c xs
      else (case split c xs of
              w # ws \<Rightarrow> (x # w) # ws
            | [] \<Rightarrow> [[x]]))"

section \<open>License normaliser\<close>

text \<open>
  \<^verbatim>\<open>licenseRegex\<close> is, after the template literal has been read (each \<^verbatim>\<open>\\\<close> is one
  backslash, each line break of the literal is a line feed):
  \<^verbatim>\<open>\/\*\*\<close> LF
  \<^verbatim>\<open> \* @license\<close> LF
  \<^verbatim>\<open> \* (Copyright \d+ (Google LLC|Massachusetts Institute of Technology))\<close> LF
  \<^verbatim>\<open>( \* All rights reserved.\<close> LF \<^verbatim>\<open>)? \* SPDX-License-Identifier: Apache-2.0\<close> LF
  \<^verbatim>\<open> \*\/\<close>

  The matcher below recognises this expression at the start of a string and returns
  the text after the match. Each piece returns the rest of the input.
  The expression is deterministic, so the backtracking of the JavaScript engine never
  finds a match that the left-to-right recogniser misses: \<^verbatim>\<open>\d+\<close> is followed by a
  space, which is no digit; the two holders start with different letters; the optional
  line and the SPDX line differ in their fourth character.
\<close>

definition lit :: "string \<Rightarrow> string \<Rightarrow> string option" where
  "lit p s = (if prefix p s then Some (drop (length p) s) else None)"

definition isDigit :: "char \<Rightarrow> bool" where
  "isDigit c = (c \<in> set ''0123456789'')"

text \<open>\<^verbatim>\<open>\d+\<close>: one digit or more, as many as there are.\<close>

definition digits1 :: "string \<Rightarrow> string option" where
  "digits1 s = (if takeWhile isDigit s = [] then None else Some (dropWhile isDigit s))"

text \<open>\<^verbatim>\<open>.\<close>: any one character that is not a line terminator.\<close>

definition anyChar :: "string \<Rightarrow> string option" where
  "anyChar s = (case s of [] \<Rightarrow> None | c # cs \<Rightarrow> if c = LF \<or> c = CR then None else Some cs)"

text \<open>\<^verbatim>\<open>(Google LLC|Massachusetts Institute of Technology)\<close>\<close>

definition holder :: "string \<Rightarrow> string option" where
  "holder s = (case lit ''Google LLC'' s of
                 Some r \<Rightarrow> Some r
               | None \<Rightarrow> lit ''Massachusetts Institute of Technology'' s)"

text \<open>\<^verbatim>\<open> \* All rights reserved.\<close> LF, the body of the optional group.\<close>

definition allRightsLine :: "string \<Rightarrow> string option" where
  "allRightsLine s = Option.bind (Option.bind (lit '' * All rights reserved'' s) anyChar) (lit [LF])"

text \<open>\<^verbatim>\<open> \* SPDX-License-Identifier: Apache-2.0\<close> LF \<^verbatim>\<open> \*\/\<close>, the end of the expression.\<close>

definition spdxTail :: "string \<Rightarrow> string option" where
  "spdxTail s =
     Option.bind (Option.bind (Option.bind (lit '' * SPDX-License-Identifier: Apache-2'' s) anyChar)
       (lit ''0'')) (lit (LF # '' */''))"

text \<open>
  The optional group is greedy: the engine first tries the group and the rest after it,
  and only then the rest without the group.
\<close>

definition optionalThenTail :: "string \<Rightarrow> string option" where
  "optionalThenTail s =
     (case Option.bind (allRightsLine s) spdxTail of
        Some r \<Rightarrow> Some r
      | None \<Rightarrow> spdxTail s)"

definition licenseMatch :: "string \<Rightarrow> string option" where
  "licenseMatch s =
     Option.bind (Option.bind (Option.bind (Option.bind (Option.bind
       (lit (''/**'' @ LF # '' * @license'' @ LF # '' * Copyright '') s)
       digits1) (lit '' '')) holder) (lit [LF])) optionalThenTail"

lemma lit_shorter: "lit p s = Some r \<Longrightarrow> length r \<le> length s"
  by (auto simp: lit_def split: if_splits)

lemma lit_Cons_shorter: "lit (c # p) s = Some r \<Longrightarrow> length r < length s"
  by (cases s) (auto simp: lit_def split: if_splits)

lemma digits1_shorter: "digits1 s = Some r \<Longrightarrow> length r \<le> length s"
  by (auto simp: digits1_def length_dropWhile_le split: if_splits)

lemma anyChar_shorter: "anyChar s = Some r \<Longrightarrow> length r \<le> length s"
  by (auto simp: anyChar_def split: list.splits if_splits)

lemma holder_shorter: "holder s = Some r \<Longrightarrow> length r \<le> length s"
  by (auto simp: holder_def split: option.splits dest: lit_shorter)

lemma allRightsLine_shorter: "allRightsLine s = Some r \<Longrightarrow> length r \<le> length s"
  by (fastforce simp: allRightsLine_def bind_eq_Some_conv
      dest: lit_shorter anyChar_shorter)

lemma spdxTail_shorter: "spdxTail s = Some r \<Longrightarrow> length r \<le> length s"
  by (fastforce simp: spdxTail_def bind_eq_Some_conv
      dest: lit_shorter anyChar_shorter)

lemma optionalThenTail_shorter: "optionalThenTail s = Some r \<Longrightarrow> length r \<le> length s"
  by (fastforce simp: optionalThenTail_def bind_eq_Some_conv split: option.splits
      dest: allRightsLine_shorter spdxTail_shorter)

lemma licenseMatch_shorter:
  assumes "licenseMatch s = Some r"
  shows "length r < length s"
proof -
  from assms obtain a b c d e where
    a: "lit (''/**'' @ LF # '' * @license'' @ LF # '' * Copyright '') s = Some a"
    and b: "digits1 a = Some b" and c: "lit '' '' b = Some c"
    and d: "holder c = Some d" and e: "lit [LF] d = Some e"
    and r: "optionalThenTail e = Some r"
    unfolding licenseMatch_def bind_eq_Some_conv by blast
  have "length a < length s"
    using a lit_Cons_shorter [of "CHR ''/''" _ s a] by simp
  moreover have "length b \<le> length a" using b by (rule digits1_shorter)
  moreover have "length c \<le> length b" using c by (rule lit_shorter)
  moreover have "length d \<le> length c" using d by (rule holder_shorter)
  moreover have "length e \<le> length d" using e by (rule lit_shorter)
  moreover have "length r \<le> length e" using r by (rule optionalThenTail_shorter)
  ultimately show ?thesis by linarith
qed

text \<open>
  \<^verbatim>\<open>gulp.replace(new RegExp(licenseRegex, "g"), '\n\n\n\n')\<close> applied to the text of one
  file: \<^verbatim>\<open>String.prototype.replace\<close> with a global expression replaces the matches
  found from left to right, each search starting where the last match ended. The
  replacement, four line feeds, contains no \<^verbatim>\<open>$\<close> pattern.
\<close>

function stripApacheLicense :: "string \<Rightarrow> string" where
  "stripApacheLicense [] = []"
| "stripApacheLicense (c # cs) =
     (case licenseMatch (c # cs) of
        Some rest \<Rightarrow> [LF, LF, LF, LF] @ stripApacheLicense rest
      | None \<Rightarrow> c # stripApacheLicense cs)"
  by pat_completeness auto
termination
  by (relation "measure length") (auto dest: licenseMatch_shorter)

text \<open>
  The number of lines of a text, as a line-indexed source map counts them: one more
  than the number of line feeds.
\<close>

definition lineFeeds :: "string \<Rightarrow> nat" where
  "lineFeeds s = length (filter (\<lambda>c. c = LF) s)"

definition lineCount :: "string \<Rightarrow> nat" where
  "lineCount s = Suc (lineFeeds s)"

text \<open>
  The line feeds beyond four in the matches that the replacement finds in a text, the
  matches taken as \<^verbatim>\<open>stripApacheLicense\<close> takes them.
\<close>

function lostLines :: "string \<Rightarrow> nat" where
  "lostLines [] = 0"
| "lostLines (c # cs) =
     (case licenseMatch (c # cs) of
        Some rest \<Rightarrow> lineFeeds (take (length (c # cs) - length rest) (c # cs)) - 4 + lostLines rest
      | None \<Rightarrow> lostLines cs)"
  by pat_completeness auto
termination
  by (relation "measure length") (auto dest: licenseMatch_shorter)

text \<open>
  Two texts of a header and one line of code: the header with the optional line, as
  the files that came from MIT have it, and the header without it.
\<close>

definition mitHeader :: string where
  "mitHeader =
     ''/**'' @ LF #
     '' * @license'' @ LF #
     '' * Copyright 2012 Massachusetts Institute of Technology'' @ LF #
     '' * All rights reserved.'' @ LF #
     '' * SPDX-License-Identifier: Apache-2.0'' @ LF #
     '' */'' @ LF #
     ''var x;''"

definition googleHeader :: string where
  "googleHeader =
     ''/**'' @ LF #
     '' * @license'' @ LF #
     '' * Copyright 2018 Google LLC'' @ LF #
     '' * SPDX-License-Identifier: Apache-2.0'' @ LF #
     '' */'' @ LF #
     ''var x;''"

subsection \<open>What a match spans\<close>

text \<open>
  Every piece of the matcher consumes a prefix of its input. A match spans four line
  feeds, or five when the optional line is part of it; so the replacement by four line
  feeds loses one line for every match with the optional line, and none otherwise.
\<close>

lemma lineFeeds_append [simp]: "lineFeeds (a @ b) = lineFeeds a + lineFeeds b"
  by (simp add: lineFeeds_def)

lemma lineFeeds_free: "LF \<notin> set s \<Longrightarrow> lineFeeds s = 0"
  by (induction s) (auto simp: lineFeeds_def)

lemma lit_consumes: "lit p s = Some r \<Longrightarrow> s = p @ r"
  by (auto simp: lit_def prefix_def split: if_splits)

lemma digits1_consumes: "digits1 s = Some r \<Longrightarrow> \<exists>d. s = d @ r \<and> lineFeeds d = 0"
proof -
  assume "digits1 s = Some r"
  then have r: "r = dropWhile isDigit s" by (auto simp: digits1_def split: if_splits)
  have "LF \<notin> set (takeWhile isDigit s)"
    by (auto dest: set_takeWhileD simp: isDigit_def)
  then have "lineFeeds (takeWhile isDigit s) = 0" by (rule lineFeeds_free)
  moreover have "s = takeWhile isDigit s @ r" using r by simp
  ultimately show ?thesis by blast
qed

lemma anyChar_consumes: "anyChar s = Some r \<Longrightarrow> \<exists>c. s = c # r \<and> c \<noteq> LF"
  by (auto simp: anyChar_def split: list.splits if_splits)

lemma holder_consumes: "holder s = Some r \<Longrightarrow> \<exists>h. s = h @ r \<and> lineFeeds h = 0"
proof -
  assume h: "holder s = Some r"
  then consider "lit ''Google LLC'' s = Some r"
    | "lit ''Massachusetts Institute of Technology'' s = Some r"
    by (auto simp: holder_def split: option.splits)
  then show ?thesis
  proof cases
    case 1
    from lit_consumes [OF this] show ?thesis by (intro exI [of _ "''Google LLC''"]) (simp add: lineFeeds_def)
  next
    case 2
    from lit_consumes [OF this] show ?thesis
      by (intro exI [of _ "''Massachusetts Institute of Technology''"]) (simp add: lineFeeds_def)
  qed
qed

lemma allRightsLine_consumes:
  assumes "allRightsLine s = Some r"
  shows "\<exists>m. s = m @ r \<and> lineFeeds m = 1"
proof -
  from assms obtain a b where a: "lit '' * All rights reserved'' s = Some a"
    and b: "anyChar a = Some b" and r: "lit [LF] b = Some r"
    unfolding allRightsLine_def bind_eq_Some_conv by blast
  from anyChar_consumes [OF b] obtain c where c: "a = c # b" "c \<noteq> LF" by blast
  from lit_consumes [OF a] lit_consumes [OF r] c
  have "s = ('' * All rights reserved'' @ [c] @ [LF]) @ r" by simp
  moreover have "lineFeeds ('' * All rights reserved'' @ [c] @ [LF]) = 1"
    using c(2) by (simp add: lineFeeds_def)
  ultimately show ?thesis by blast
qed

lemma spdxTail_consumes:
  assumes "spdxTail s = Some r"
  shows "\<exists>m. s = m @ r \<and> lineFeeds m = 1"
proof -
  from assms obtain a b d where a: "lit '' * SPDX-License-Identifier: Apache-2'' s = Some a"
    and b: "anyChar a = Some b" and d: "lit ''0'' b = Some d" and r: "lit (LF # '' */'') d = Some r"
    unfolding spdxTail_def bind_eq_Some_conv by blast
  from anyChar_consumes [OF b] obtain c where c: "a = c # b" "c \<noteq> LF" by blast
  from lit_consumes [OF a] lit_consumes [OF d] lit_consumes [OF r] c
  have "s = ('' * SPDX-License-Identifier: Apache-2'' @ [c] @ ''0'' @ LF # '' */'') @ r" by simp
  moreover have "lineFeeds ('' * SPDX-License-Identifier: Apache-2'' @ [c] @ ''0'' @ LF # '' */'') = 1"
    using c(2) by (simp add: lineFeeds_def)
  ultimately show ?thesis by blast
qed

lemma optionalThenTail_consumes:
  assumes "optionalThenTail s = Some r"
  shows "\<exists>m. s = m @ r \<and> (lineFeeds m = 1 \<or> lineFeeds m = 2)"
proof (cases "Option.bind (allRightsLine s) spdxTail")
  case None
  with assms have "spdxTail s = Some r" by (simp add: optionalThenTail_def)
  from spdxTail_consumes [OF this] show ?thesis by blast
next
  case (Some r')
  with assms have "r' = r" by (simp add: optionalThenTail_def)
  with Some obtain a where a: "allRightsLine s = Some a" and t: "spdxTail a = Some r"
    unfolding bind_eq_Some_conv by blast
  from allRightsLine_consumes [OF a] obtain m1 where m1: "s = m1 @ a" "lineFeeds m1 = 1" by blast
  from spdxTail_consumes [OF t] obtain m2 where m2: "a = m2 @ r" "lineFeeds m2 = 1" by blast
  from m1 m2 have "s = (m1 @ m2) @ r \<and> lineFeeds (m1 @ m2) = 2" by simp
  then show ?thesis by blast
qed

lemma licenseMatch_consumes:
  assumes "licenseMatch s = Some r"
  shows "\<exists>m. s = m @ r \<and> (lineFeeds m = 4 \<or> lineFeeds m = 5)"
proof -
  let ?h = "''/**'' @ LF # '' * @license'' @ LF # '' * Copyright ''"
  from assms obtain a b c d e where
    a: "lit ?h s = Some a"
    and b: "digits1 a = Some b" and c: "lit '' '' b = Some c"
    and d: "holder c = Some d" and e: "lit [LF] d = Some e"
    and r: "optionalThenTail e = Some r"
    unfolding licenseMatch_def bind_eq_Some_conv by blast
  from digits1_consumes [OF b] obtain ds where ds: "a = ds @ b" "lineFeeds ds = 0" by blast
  from holder_consumes [OF d] obtain h where h: "c = h @ d" "lineFeeds h = 0" by blast
  from optionalThenTail_consumes [OF r] obtain t where
    t: "e = t @ r" "lineFeeds t = 1 \<or> lineFeeds t = 2" by blast
  have s: "s = (?h @ ds @ '' '' @ h @ [LF] @ t) @ r"
    using lit_consumes [OF a] lit_consumes [OF c] lit_consumes [OF e] ds(1) h(1) t(1) by simp
  have "lineFeeds ?h = 2" by (simp add: lineFeeds_def)
  then have "lineFeeds (?h @ ds @ '' '' @ h @ [LF] @ t) = 3 + lineFeeds t"
    using ds(2) h(2) by (simp add: lineFeeds_def)
  with t(2) have "lineFeeds (?h @ ds @ '' '' @ h @ [LF] @ t) = 4
      \<or> lineFeeds (?h @ ds @ '' '' @ h @ [LF] @ t) = 5" by auto
  with s show ?thesis by blast
qed

lemma stripApacheLicense_line_loss:
  "lineFeeds (stripApacheLicense s) + lostLines s = lineFeeds s"
proof (induction s rule: stripApacheLicense.induct)
  case 1
  show ?case by (simp add: lineFeeds_def)
next
  case (2 c cs)
  show ?case
  proof (cases "licenseMatch (c # cs)")
    case None
    with "2.IH"(1) [OF None] show ?thesis by (simp add: lineFeeds_def)
  next
    case (Some rest)
    from licenseMatch_consumes [OF Some] obtain m where
      m: "c # cs = m @ rest" "lineFeeds m = 4 \<or> lineFeeds m = 5" by blast
    have tk: "take (length (c # cs) - length rest) (c # cs) = m"
      unfolding m(1) by simp
    have "lineFeeds (stripApacheLicense (c # cs)) = 4 + lineFeeds (stripApacheLicense rest)"
      using Some by (simp add: lineFeeds_def)
    moreover have "lostLines (c # cs) = lineFeeds m - 4 + lostLines rest"
      using Some tk by simp
    moreover have "lineFeeds (c # cs) = lineFeeds m + lineFeeds rest"
      unfolding m(1) by simp
    ultimately show ?thesis using "2.IH"(2) [OF Some] m(2) by auto
  qed
qed

lemma stripApacheLicense_lineCount:
  "lineCount (stripApacheLicense s) + lostLines s = lineCount s"
  using stripApacheLicense_line_loss [of s] by (simp add: lineCount_def)

subsection \<open>Line count\<close>

text \<open>
  C1 (line-count preservation of \<^verbatim>\<open>stripApacheLicense\<close>): the replacement is always four
  line feeds. A header without the optional line spans four line breaks and the line
  count is kept, as the comment in the source promises (``Replace with the same number
  of lines so that source-maps are not affected''). A header with the optional
  ``All rights reserved.'' line spans five line breaks: the text \<open>mitHeader\<close> has seven
  lines before and six lines after normalisation, so the line count is not preserved.
\<close>

theorem stripApacheLicense_optional_line_drops_a_line:
  "lineCount googleHeader = 6 \<and> lineCount (stripApacheLicense googleHeader) = 6 \<and>
   lineCount mitHeader = 7 \<and> lineCount (stripApacheLicense mitHeader) = 6"
  by (simp add: lineCount_def lineFeeds_def googleHeader_def mitHeader_def licenseMatch_def lit_def
      digits1_def isDigit_def holder_def optionalThenTail_def allRightsLine_def
      spdxTail_def anyChar_def)

section \<open>Path flatten transform\<close>

text \<open>
  \<^verbatim>\<open>path.sep\<close> of Node.js is \<^verbatim>\<open>/\<close> on POSIX systems and \<^verbatim>\<open>\\<close> on Windows.
\<close>

datatype platform = Posix | Win32

fun sep :: "platform \<Rightarrow> char" where
  "sep Posix = CHR ''/''"
| "sep Win32 = CHR 0x5C"

text \<open>The path object that \<^verbatim>\<open>gulp.rename\<close> hands to its callback.\<close>

record pathObject =
  dirname :: string
  basename :: string
  extname :: string

text \<open>The token of both transforms, \<^verbatim>\<open>'-slash-'\<close>.\<close>

definition slashToken :: string where
  "slashToken = ''-slash-''"

text \<open>
  \<^verbatim>\<open>flattenCorePaths\<close> modifies the path object in place; the model returns the
  modified object. \<^verbatim>\<open>dirs[0]\<close> of an empty array would be \<^verbatim>\<open>undefined\<close>, which is not
  \<^verbatim>\<open>'core'\<close>.
\<close>

definition flattenCorePaths :: "platform \<Rightarrow> pathObject \<Rightarrow> pathObject" where
  "flattenCorePaths pf pathObject =
     (let dirs = split (sep pf) (dirname pathObject) in
      case dirs of
        [] \<Rightarrow> pathObject
      | d # ds \<Rightarrow>
          if d = ''core''
          then pathObject\<lparr>dirname := d,
                 basename := join slashToken (ds @ [basename pathObject])\<rparr>
          else pathObject)"

text \<open>
  \<^verbatim>\<open>pathString.replace(/-slash-/g, path.sep)\<close>: every occurrence of the token, found
  from left to right without overlap, becomes the separator.
\<close>

function unflattenCorePaths :: "platform \<Rightarrow> string \<Rightarrow> string" where
  "unflattenCorePaths pf [] = []"
| "unflattenCorePaths pf (c # cs) =
     (if prefix slashToken (c # cs)
      then sep pf # unflattenCorePaths pf (drop (length slashToken) (c # cs))
      else c # unflattenCorePaths pf cs)"
  by pat_completeness auto
termination
  by (relation "measure (\<lambda>(pf, s). length s)") (auto simp: slashToken_def)

text \<open>
  The path string of a path object, as \<^verbatim>\<open>gulp-rename\<close> assembles it after the
  callback: directory, separator, base name and extension
  (\<^verbatim>\<open>path.join(dirname, basename + extname)\<close> on a directory that needs no
  normalisation). This is the string that reaches the compiler and comes back in the
  \<^verbatim>\<open>sources\<close> of the source map, where \<^verbatim>\<open>unflattenCorePaths\<close> is applied.
\<close>

definition pathString :: "platform \<Rightarrow> pathObject \<Rightarrow> string" where
  "pathString pf p = dirname p @ [sep pf] @ basename p @ extname p"

subsection \<open>Splitting and joining\<close>





subsection \<open>The reverse transform on strings\<close>

lemma unflatten_skip:
  "\<not> prefix slashToken (c # cs) \<Longrightarrow> unflattenCorePaths pf (c # cs) = c # unflattenCorePaths pf cs"
  by simp


lemma unflatten_no_token: "\<not> sublist slashToken s \<Longrightarrow> unflattenCorePaths pf s = s"
proof (induction s)
  case Nil
  show ?case by simp
next
  case (Cons c cs)
  have "\<not> prefix slashToken (c # cs)"
  proof
    assume "prefix slashToken (c # cs)"
    then have "sublist slashToken (c # cs)" by (rule prefix_imp_sublist)
    with Cons.prems show False by simp
  qed
  moreover have "\<not> sublist slashToken cs"
    using Cons.prems by (simp add: sublist_Cons_right)
  ultimately show ?case using Cons.IH by simp
qed







lemma split_core: "split (sep pf) ''core'' = [''core'']"
  by (cases pf) simp_all

lemma unflatten_length: "length (unflattenCorePaths pf s) \<le> length s"
  by (induction pf s rule: unflattenCorePaths.induct) (auto simp: slashToken_def)

lemma unflatten_token_shrinks:
  "sublist slashToken s \<Longrightarrow> length (unflattenCorePaths pf s) < length s"
proof (induction s)
  case Nil
  then show ?case by (simp add: slashToken_def)
next
  case (Cons c cs)
  show ?case
  proof (cases "prefix slashToken (c # cs)")
    case True
    then have "length (unflattenCorePaths pf (c # cs))
        = Suc (length (unflattenCorePaths pf (drop (length slashToken) (c # cs))))"
      by simp
    also have "\<dots> \<le> Suc (length (drop (length slashToken) (c # cs)))"
      by (simp only: Suc_le_mono unflatten_length)
    also have "\<dots> < length (c # cs)"
      using True by (auto simp: slashToken_def prefix_def)
    finally show ?thesis .
  next
    case False
    with Cons.prems have "sublist slashToken cs" by (simp add: sublist_Cons_right)
    with Cons.IH False show ?thesis by simp
  qed
qed

lemma unflatten_fixpoint_iff:
  "unflattenCorePaths pf s = s \<longleftrightarrow> \<not> sublist slashToken s"
  using unflatten_no_token [of s pf] unflatten_token_shrinks [of s pf] by fastforce

subsection \<open>Round trip\<close>

definition nestedCorePath :: pathObject where
  "nestedCorePath = \<lparr>dirname = ''core/utils/svg'', basename = ''dom'', extname = ''.js''\<rparr>"


definition blocksPath :: pathObject where
  "blocksPath = \<lparr>dirname = ''blocks'', basename = ''all'', extname = ''.js''\<rparr>"

definition tokenBlocksPath :: pathObject where
  "tokenBlocksPath = \<lparr>dirname = ''blocks'', basename = ''a-slash-b'', extname = ''.js''\<rparr>"




subsection \<open>The reverse transform on paths that the forward transform leaves alone\<close>

text \<open>
  C4: the reverse transform is a no-op on every string that the forward transform
  would not have modified. The specification guarantees that the token \<^verbatim>\<open>-slash-\<close>
  occurs in no legitimate path; a string in which the token does not occur is left as
  it is by the reverse transform, whether or not it lies under \<^verbatim>\<open>core\<close>. So this holds
  of every legitimate string, and of those that the forward transform leaves alone
  among them.
\<close>

theorem unflatten_noop:
  assumes "\<not> sublist slashToken s"
  shows "unflattenCorePaths pf s = s"
  using assms by (rule unflatten_no_token)

theorem unflatten_noop_witness:
  "flattenCorePaths Posix blocksPath = blocksPath \<and>
   pathString Posix blocksPath = ''blocks/all.js'' \<and>
   \<not> sublist slashToken (pathString Posix blocksPath) \<and>
   unflattenCorePaths Posix (pathString Posix blocksPath) = pathString Posix blocksPath"
proof -
  have same: "flattenCorePaths Posix blocksPath = blocksPath"
    by (simp add: blocksPath_def flattenCorePaths_def)
  have str: "pathString Posix blocksPath = ''blocks/all.js''"
    by (simp add: blocksPath_def pathString_def)
  have free: "\<not> sublist slashToken (pathString Posix blocksPath)"
    by (simp add: blocksPath_def pathString_def slashToken_def sublist_code)
  from unflatten_noop [OF free, of Posix] same str free show ?thesis by simp
qed

text \<open>
  The guarantee is needed: a string with the token in it, which no legitimate path
  is, is changed by the reverse transform also when it is not under \<^verbatim>\<open>core\<close>.
\<close>

lemma unflatten_outside_guarantee:
  "flattenCorePaths Posix tokenBlocksPath = tokenBlocksPath \<and>
   pathString Posix tokenBlocksPath = ''blocks/a-slash-b.js'' \<and>
   unflattenCorePaths Posix (pathString Posix tokenBlocksPath) = ''blocks/a/b.js''"
  by (simp add: tokenBlocksPath_def flattenCorePaths_def pathString_def slashToken_def)

subsection \<open>Idempotence of the forward transform\<close>

text \<open>
  C9: flattening twice is flattening once. After one application to a path under
  \<^verbatim>\<open>core\<close> the directory is \<^verbatim>\<open>core\<close> alone, so the second application joins no
  further segment to the base name; a path outside \<^verbatim>\<open>core\<close> is never changed.
\<close>

theorem flattenCorePaths_idempotent:
  "flattenCorePaths pf (flattenCorePaths pf p) = flattenCorePaths pf p"
  by (auto simp: flattenCorePaths_def Let_def split_core split: list.splits)

theorem flattenCorePaths_idempotent_witness:
  "flattenCorePaths Posix (flattenCorePaths Posix nestedCorePath)
     = \<lparr>dirname = ''core'', basename = ''utils-slash-svg-slash-dom'', extname = ''.js''\<rparr>"
  using flattenCorePaths_idempotent [of Posix nestedCorePath]
  by (simp add: nestedCorePath_def flattenCorePaths_def slashToken_def)

section \<open>Chunks and their wrappers\<close>

subsection \<open>JavaScript values\<close>

text \<open>
  Every exception that the modelled code can raise is a \<^verbatim>\<open>TypeError\<close>: a property is
  read from, or written to, \<^verbatim>\<open>undefined\<close>. The script catches none of them, so an
  error ends the build task.
\<close>

datatype js_error = TypeError

text \<open>
  A value that is a string or \<^verbatim>\<open>undefined\<close> is a \<^typ>\<open>string option\<close>.
  In a template literal and as a property key \<^verbatim>\<open>undefined\<close> becomes the text
  \<^verbatim>\<open>undefined\<close>; \<^verbatim>\<open>Array.prototype.join\<close> renders it as the empty string; in a
  condition it is false, as the empty string is; \<^verbatim>\<open>a || b\<close> is \<^verbatim>\<open>b\<close> when \<^verbatim>\<open>a\<close> is
  false. Reading an array beyond its length gives \<^verbatim>\<open>undefined\<close>.
\<close>

definition toStr :: "string option \<Rightarrow> string" where
  "toStr v = (case v of None \<Rightarrow> ''undefined'' | Some s \<Rightarrow> s)"

definition joinStr :: "string option \<Rightarrow> string" where
  "joinStr v = (case v of None \<Rightarrow> [] | Some s \<Rightarrow> s)"

definition truthy :: "string option \<Rightarrow> bool" where
  "truthy v = (case v of None \<Rightarrow> False | Some s \<Rightarrow> s \<noteq> [])"

definition orElse :: "string option \<Rightarrow> string \<Rightarrow> string" where
  "orElse v d = (case v of None \<Rightarrow> d | Some s \<Rightarrow> if s = [] then d else s)"

definition nthOpt :: "'a list \<Rightarrow> nat \<Rightarrow> 'a option" where
  "nthOpt xs i = (if i < length xs then Some (xs ! i) else None)"

text \<open>
  \<^verbatim>\<open>JSON.stringify\<close> of a string: the string in double quotes, with the double quote,
  the backslash and the control characters below U+0020 escaped (the five short
  escapes, and four lower-case hexadecimal digits after \<^verbatim>\<open>\u\<close> for the others).
\<close>

definition hexDigit :: "nat \<Rightarrow> char" where
  "hexDigit n = (if n < 16 then ''0123456789abcdef'' ! n else CHR ''0'')"

definition quoteJSONChar :: "char \<Rightarrow> string" where
  "quoteJSONChar c =
     (if c = CHR 0x08 then [CHR 0x5C, CHR ''b'']
      else if c = CHR 0x09 then [CHR 0x5C, CHR ''t'']
      else if c = LF then [CHR 0x5C, CHR ''n'']
      else if c = CHR 0x0C then [CHR 0x5C, CHR ''f'']
      else if c = CR then [CHR 0x5C, CHR ''r'']
      else if c = CHR 0x22 then [CHR 0x5C, CHR 0x22]
      else if c = CHR 0x5C then [CHR 0x5C, CHR 0x5C]
      else if (of_char c :: nat) < 32
        then [CHR 0x5C, CHR ''u'', CHR ''0'', CHR ''0'',
              hexDigit (of_char c div 16), hexDigit (of_char c mod 16)]
      else [c])"

definition JSON_stringify :: "string \<Rightarrow> string" where
  "JSON_stringify s = CHR 0x22 # concat (map quoteJSONChar s) @ [CHR 0x22]"

subsection \<open>The chunk list\<close>

text \<open>
  The objects of the array \<^verbatim>\<open>chunks\<close> are shared and mutable: \<^verbatim>\<open>getChunkOptions\<close>
  adds the properties \<^verbatim>\<open>dependencies\<close> and \<^verbatim>\<open>wrapper\<close> to them, and a dependency is a
  reference to another object of the array. The model keeps the array as a list of
  records that is passed in and returned; a reference to a chunk object is its
  position in the array. The elements of \<^verbatim>\<open>dependencies\<close> are optional references,
  since a lookup of an unknown nickname stores \<^verbatim>\<open>undefined\<close> in the array before the
  error is raised. \<^verbatim>\<open>importAs\<close>, \<^verbatim>\<open>factoryPreamble\<close> and \<^verbatim>\<open>factoryPostamble\<close> are absent
  in some declarations; \<^verbatim>\<open>dependencies\<close> and \<^verbatim>\<open>wrapper\<close> are absent in all of them.
\<close>

type_synonym ref = nat

record chunk =
  name :: string
  entry :: string
  exports :: string
  importAs :: "string option"
  factoryPreamble :: "string option"
  factoryPostamble :: "string option"
  dependencies :: "ref option list option"
  wrapper :: "string option"

definition COMPILED_SUFFIX :: string where
  "COMPILED_SUFFIX = ''_compressed''"

definition NAMESPACE_OBJECT :: string where
  "NAMESPACE_OBJECT = ''$''"

text \<open>A chunk as it is declared in the source, before \<^verbatim>\<open>getChunkOptions\<close> has run.\<close>

definition chunkDef ::
  "string \<Rightarrow> string \<Rightarrow> string \<Rightarrow> string option \<Rightarrow> string option \<Rightarrow> string option \<Rightarrow> chunk" where
  "chunkDef n e x a pre post =
     \<lparr>name = n, entry = e, exports = x, importAs = a, factoryPreamble = pre,
      factoryPostamble = post, dependencies = None, wrapper = None\<rparr>"

definition chunks :: "chunk list" where
  "chunks =
     [chunkDef ''blockly'' ''core/requires.js'' ''Blockly'' (Some ''Blockly'')
        (Some (''const '' @ NAMESPACE_OBJECT @ ''={};''))
        (Some (NAMESPACE_OBJECT @ ''.Blockly.internal_='' @ NAMESPACE_OBJECT @ '';'')),
      chunkDef ''blocks'' ''blocks/all.js'' ''Blockly.Blocks'' (Some ''BlocklyBlocks'') None None,
      chunkDef ''javascript'' ''generators/javascript/all.js'' ''Blockly.JavaScript'' None None None,
      chunkDef ''python'' ''generators/python/all.js'' ''Blockly.Python'' None None None,
      chunkDef ''php'' ''generators/php/all.js'' ''Blockly.PHP'' None None None,
      chunkDef ''lua'' ''generators/lua/all.js'' ''Blockly.Lua'' None None None,
      chunkDef ''dart'' ''generators/dart/all.js'' ''Blockly.Dart'' None None None]"

definition FACTORY_PREAMBLE :: string where
  "FACTORY_PREAMBLE = ''const '' @ NAMESPACE_OBJECT @ ''=Blockly.internal_;''"

definition FACTORY_POSTAMBLE :: string where
  "FACTORY_POSTAMBLE = ''''"

subsection \<open>The wrapper of one chunk\<close>

text \<open>
  Reading a property of a dependency: the dependency is \<^verbatim>\<open>undefined\<close>, which raises a
  \<^verbatim>\<open>TypeError\<close>, or an object of the array. A position outside the array stands for no
  object and is treated as \<^verbatim>\<open>undefined\<close>; \<^verbatim>\<open>getChunkOptions\<close> never stores one.
\<close>

definition deref :: "chunk list \<Rightarrow> ref option \<Rightarrow> js_error + chunk" where
  "deref st r =
     (case r of
        None \<Rightarrow> Inl TypeError
      | Some i \<Rightarrow> if i < length st then Inr (st ! i) else Inl TypeError)"

text \<open>\<^verbatim>\<open>Array.prototype.map\<close> with a callback that may throw: the first error ends it.\<close>

fun mapE :: "('a \<Rightarrow> js_error + 'b) \<Rightarrow> 'a list \<Rightarrow> js_error + 'b list" where
  "mapE f [] = Inr []"
| "mapE f (x # xs) =
     (case f x of
        Inl e \<Rightarrow> Inl e
      | Inr y \<Rightarrow> (case mapE f xs of Inl e \<Rightarrow> Inl e | Inr ys \<Rightarrow> Inr (y # ys)))"

text \<open>
  The text that \<^verbatim>\<open>chunkWrapper\<close> returns, in two parts: the lines up to and including
  the head of the factory function, and the lines of its body. The module
  definition, the \<^verbatim>\<open>require\<close> calls, the browser globals and the parameter names are
  each computed from the dependencies.
\<close>

definition wrapperHead :: "chunk \<Rightarrow> chunk list \<Rightarrow> string" where
  "wrapperHead chunk deps =
     (let fileNames = map (\<lambda>d. JSON_stringify (''./'' @ name d @ COMPILED_SUFFIX @ ''.js'')) deps;
          amdDeps = join '', '' fileNames;
          cjsDeps = join '', '' (map (\<lambda>f. ''require('' @ f @ '')'') fileNames);
          browserDeps = join '', '' (map (\<lambda>d. ''root.'' @ exports d) deps);
          imports = join '', '' (map (\<lambda>d. joinStr (importAs d)) deps)
      in ''// Do not edit this file; automatically generated.'' @ LF #
         LF #
         ''/* eslint-disable */'' @ LF #
         '';(function(root, factory) {'' @ LF #
         ''  if (typeof define === 'function' && define.amd) { // AMD'' @ LF #
         ''    define(['' @ amdDeps @ ''], factory);'' @ LF #
         ''  } else if (typeof exports === 'object') { // Node.js'' @ LF #
         ''    module.exports = factory('' @ cjsDeps @ '');'' @ LF #
         ''  } else { // Browser'' @ LF #
         ''    root.'' @ exports chunk @ '' = factory('' @ browserDeps @ '');'' @ LF #
         ''  }'' @ LF #
         ''}(this, function('' @ imports @ '') {'' @ [LF])"

definition wrapperBody :: "chunk \<Rightarrow> string" where
  "wrapperBody chunk =
     orElse (factoryPreamble chunk) FACTORY_PREAMBLE @ LF #
     ''%output%'' @ LF #
     orElse (factoryPostamble chunk) FACTORY_POSTAMBLE @ LF #
     ''return '' @ NAMESPACE_OBJECT @ ''.'' @ exports chunk @ '';'' @ LF #
     ''}));'' @ [LF]"

text \<open>
  \<^verbatim>\<open>chunkWrapper(chunk)\<close>: mapping over \<^verbatim>\<open>chunk.dependencies\<close> raises a \<^verbatim>\<open>TypeError\<close>
  when the property is absent, and so does reading \<^verbatim>\<open>d.name\<close> of a dependency that is
  \<^verbatim>\<open>undefined\<close>. The first argument is the chunk array, in which the references are
  looked up.
\<close>

definition chunkWrapper :: "chunk list \<Rightarrow> chunk \<Rightarrow> js_error + string" where
  "chunkWrapper st chunk =
     (case dependencies chunk of
        None \<Rightarrow> Inl TypeError
      | Some ds \<Rightarrow>
          (case mapE (deref st) ds of
             Inl e \<Rightarrow> Inl e
           | Inr deps \<Rightarrow> Inr (wrapperHead chunk deps @ wrapperBody chunk)))"

subsection \<open>The chunk graph\<close>

text \<open>
  The output of \<^verbatim>\<open>closure-calculate-chunks\<close> (or the contents of the cache file), and
  the options that \<^verbatim>\<open>getChunkOptions\<close> returns. Running the tool and reading or writing
  the cache file happen before line 407 and are not modelled: the parsed output is an
  argument.
\<close>

record rawOptions =
  chunk :: "string list"
  js :: "string list"

record chunkOptions = rawOptions +
  chunk_wrapper :: "string list"

text \<open>
  The callback of \<^verbatim>\<open>rawOptions.chunk.map\<close>, for one descriptor and its index. It returns
  the descriptor with the names of \<^verbatim>\<open>chunks\<close> in place of the nicknames, or the error,
  and in both cases the table \<^verbatim>\<open>chunkByNickname\<close> and the chunk array as it has left
  them. When \<^verbatim>\<open>chunks[index]\<close> is \<^verbatim>\<open>undefined\<close> the assignment to
  \<^verbatim>\<open>chunk.dependencies\<close> that follows in either branch raises the \<^verbatim>\<open>TypeError\<close>; the
  entry \<^verbatim>\<open>undefined\<close> made in the table just before is never read, since the table is
  local to the call that the error ends. The names of the dependencies are read from
  the chunk objects after \<^verbatim>\<open>chunk.dependencies\<close> has been assigned.
\<close>

definition mapCallback ::
  "(string \<rightharpoonup> ref) \<Rightarrow> chunk list \<Rightarrow> string \<Rightarrow> nat
     \<Rightarrow> (js_error + string) \<times> (string \<rightharpoonup> ref) \<times> chunk list" where
  "mapCallback chunkByNickname st element index =
     (let parts = split CHR '':'' element;
          nickname = nthOpt parts 0;
          numJsFiles = nthOpt parts 1;
          dependencyNicks = nthOpt parts 2
      in if length st \<le> index then (Inl TypeError, chunkByNickname, st)
         else
           let chunk = st ! index;
               byNick = chunkByNickname(toStr nickname \<mapsto> index)
           in if \<not> truthy dependencyNicks
              then (Inr (name chunk @ '':'' @ toStr numJsFiles), byNick,
                    st[index := chunk\<lparr>dependencies := Some []\<rparr>])
              else
                let deps = map byNick (split CHR '','' (toStr dependencyNicks));
                    st' = st[index := chunk\<lparr>dependencies := Some deps\<rparr>]
                in case mapE (deref st') deps of
                     Inl e \<Rightarrow> (Inl e, byNick, st')
                   | Inr ds \<Rightarrow>
                       (Inr (name chunk @ '':'' @ toStr numJsFiles @ '':'' @
                             join '','' (map name ds)), byNick, st'))"

text \<open>\<^verbatim>\<open>rawOptions.chunk.map\<close>: the callback on each descriptor in turn, from index 0.\<close>

fun mapChunks ::
  "(string \<rightharpoonup> ref) \<Rightarrow> chunk list \<Rightarrow> string list \<Rightarrow> nat
     \<Rightarrow> (js_error + string list) \<times> chunk list" where
  "mapChunks byNick st [] index = (Inr [], st)"
| "mapChunks byNick st (element # rest) index =
     (case mapCallback byNick st element index of
        (Inl e, byNick', st') \<Rightarrow> (Inl e, st')
      | (Inr r, byNick', st') \<Rightarrow>
          (case mapChunks byNick' st' rest (Suc index) of
             (Inl e, st'') \<Rightarrow> (Inl e, st'')
           | (Inr rs, st'') \<Rightarrow> (Inr (r # rs), st'')))"

text \<open>
  \<^verbatim>\<open>for (const chunk of chunks) chunk.wrapper = chunkWrapper(chunk)\<close>, from position
  \<open>i\<close> on: the array iterator stops when the position reaches the length.
\<close>

function wrapChunks :: "nat \<Rightarrow> chunk list \<Rightarrow> js_error option \<times> chunk list" where
  "wrapChunks i st =
     (if i < length st
      then (case chunkWrapper st (st ! i) of
              Inl e \<Rightarrow> (Some e, st)
            | Inr w \<Rightarrow> wrapChunks (Suc i) (st[i := (st ! i)\<lparr>wrapper := Some w\<rparr>]))
      else (None, st))"
  by pat_completeness auto
termination
  by (relation "measure (\<lambda>(i, st). length st - i)") auto

declare wrapChunks.simps [simp del]

text \<open>
  \<^verbatim>\<open>getChunkOptions\<close> from line 407 on. The result is the returned options or the
  error, together with the chunk array as the call leaves it.
\<close>

definition getChunkOptions ::
  "chunk list \<Rightarrow> rawOptions \<Rightarrow> (js_error + chunkOptions) \<times> chunk list" where
  "getChunkOptions st rawOptions =
     (case mapChunks Map.empty st (chunk rawOptions) 0 of
        (Inl e, st') \<Rightarrow> (Inl e, st')
      | (Inr chunkList, st') \<Rightarrow>
          (case wrapChunks 0 st' of
             (Some e, st'') \<Rightarrow> (Inl e, st'')
           | (None, st'') \<Rightarrow>
               (Inr \<lparr>chunk = chunkList, js = js rawOptions,
                     chunk_wrapper = map (\<lambda>c. name c @ '':'' @ toStr (wrapper c)) st''\<rparr>,
                st'')))"

subsection \<open>Notions for the statements\<close>

text \<open>The fields of a chunk that its declaration gives.\<close>

definition declared ::
  "chunk \<Rightarrow> string \<times> string \<times> string \<times> string option \<times> string option \<times> string option" where
  "declared c = (name c, entry c, exports c, importAs c, factoryPreamble c, factoryPostamble c)"

text \<open>
  The nickname and the dependency nicknames of a descriptor
  \<^verbatim>\<open>name:fileCount[:dep,dep,...]\<close>, read as the callback reads them: no dependencies
  when the third field is absent or empty.
\<close>

definition nicknameOf :: "string \<Rightarrow> string" where
  "nicknameOf element = toStr (nthOpt (split CHR '':'' element) 0)"

definition dependencyNicksOf :: "string \<Rightarrow> string list" where
  "dependencyNicksOf element =
     (let dependencyNicks = nthOpt (split CHR '':'' element) 2
      in if truthy dependencyNicks then split CHR '','' (toStr dependencyNicks) else [])"

text \<open>
  The table \<^verbatim>\<open>chunkByNickname\<close> after the descriptors \<open>es\<close> have been bound to the
  positions from \<open>i\<close> on; a nickname that occurs twice keeps its last position.
\<close>

fun bindNicks :: "(string \<rightharpoonup> ref) \<Rightarrow> string list \<Rightarrow> nat \<Rightarrow> (string \<rightharpoonup> ref)" where
  "bindNicks b [] i = b"
| "bindNicks b (e # es) i = bindNicks (b(nicknameOf e \<mapsto> i)) es (Suc i)"




subsection \<open>Example inputs\<close>

text \<open>
  The first two chunks of the list, and resolver outputs for them: the second chunk
  depending on the first; one descriptor only; the first chunk naming itself, with
  and without a second descriptor; the first chunk naming the second; the second chunk
  naming the first and itself.
\<close>

definition twoChunks :: "chunk list" where
  "twoChunks = take 2 chunks"

definition twoDescriptors :: rawOptions where
  "twoDescriptors = \<lparr>chunk = [''a:5'', ''b:3:a''], js = []\<rparr>"


definition selfDescriptors :: rawOptions where
  "selfDescriptors = \<lparr>chunk = [''a:5:a'', ''b:3''], js = []\<rparr>"

definition selfOnlyDescriptor :: rawOptions where
  "selfOnlyDescriptor = \<lparr>chunk = [''a:5:a''], js = []\<rparr>"

definition forwardDescriptors :: rawOptions where
  "forwardDescriptors = \<lparr>chunk = [''a:5:b'', ''b:3''], js = []\<rparr>"

definition cycleDescriptors :: rawOptions where
  "cycleDescriptors = \<lparr>chunk = [''a:5'', ''b:3:a,b''], js = []\<rparr>"




definition blocksWrapper :: string where
  "blocksWrapper =
     ''// Do not edit this file; automatically generated.'' @ LF #
     LF #
     ''/* eslint-disable */'' @ LF #
     '';(function(root, factory) {'' @ LF #
     ''  if (typeof define === 'function' && define.amd) { // AMD'' @ LF #
     ''    define(['' @ CHR 0x22 # ''./blockly_compressed.js'' @ CHR 0x22 # ''], factory);'' @ LF #
     ''  } else if (typeof exports === 'object') { // Node.js'' @ LF #
     ''    module.exports = factory(require('' @ CHR 0x22 # ''./blockly_compressed.js'' @
       CHR 0x22 # ''));'' @ LF #
     ''  } else { // Browser'' @ LF #
     ''    root.Blockly.Blocks = factory(root.Blockly);'' @ LF #
     ''  }'' @ LF #
     ''}(this, function(Blockly) {'' @ LF #
     ''const $=Blockly.internal_;'' @ LF #
     ''%output%'' @ LF #
     LF #
     ''return $.Blockly.Blocks;'' @ LF #
     ''}));'' @ [LF]"

section \<open>Lemmas about the chunk graph\<close>

subsection \<open>The callback and the map over the descriptors\<close>

lemma js_error_eq: "(e :: js_error) = TypeError"
  by (cases e) simp

lemma mapE_Inr_iff: "(\<exists>ys. mapE f xs = Inr ys) \<longleftrightarrow> (\<forall>x \<in> set xs. \<exists>y. f x = Inr y)"
  by (induction xs) (auto split: sum.splits)

lemma mapE_Inl_iff: "(\<exists>e. mapE f xs = Inl e) \<longleftrightarrow> (\<exists>x \<in> set xs. \<exists>e. f x = Inl e)"
  by (induction xs) (auto split: sum.splits)


lemma deref_Inr_iff: "(\<exists>c. deref st r = Inr c) \<longleftrightarrow> (\<exists>j < length st. r = Some j)"
  by (auto simp: deref_def split: option.splits if_splits)

lemma deref_Inr: "deref st r = Inr c \<Longrightarrow> \<exists>j < length st. r = Some j \<and> c = st ! j"
  by (auto simp: deref_def split: option.splits if_splits)

lemma declared_update [simp]:
  "declared (c\<lparr>dependencies := d\<rparr>) = declared c"
  "declared (c\<lparr>wrapper := w\<rparr>) = declared c"
  by (simp_all add: declared_def)

lemma map_update_same: "i < length xs \<Longrightarrow> f y = f (xs ! i) \<Longrightarrow> map f (xs[i := y]) = map f xs"
  by (simp add: map_update list_update_same_conv)

lemma mapCallback_frame:
  assumes "mapCallback b st e i = (r, b', st')"
  shows "length st' = length st \<and> map declared st' = map declared st \<and>
         map wrapper st' = map wrapper st \<and> (\<forall>j. j \<noteq> i \<longrightarrow> st' ! j = st ! j)"
  using assms
  by (auto simp: mapCallback_def Let_def map_update_same split: if_splits sum.splits)

lemma mapCallback_Inr:
  assumes "mapCallback b st e i = (Inr r, b', st')"
  shows "i < length st \<and> b' = b(nicknameOf e \<mapsto> i) \<and>
         st' = st[i := (st ! i)\<lparr>dependencies := Some (map b' (dependencyNicksOf e))\<rparr>] \<and>
         (\<forall>n \<in> set (dependencyNicksOf e). \<exists>j < length st. b' n = Some j)"
proof -
  from assms have i: "i < length st"
    by (auto simp: mapCallback_def Let_def split: if_splits)
  show ?thesis
  proof (cases "truthy (nthOpt (split CHR '':'' e) 2)")
    case False
    with assms i show ?thesis
      by (auto simp: mapCallback_def Let_def nicknameOf_def dependencyNicksOf_def)
  next
    case True
    let ?b = "b(nicknameOf e \<mapsto> i)"
    let ?st = "st[i := (st ! i)\<lparr>dependencies := Some (map ?b (dependencyNicksOf e))\<rparr>]"
    from assms i True have r: "b' = ?b" "st' = ?st"
      and ok: "\<exists>ds. mapE (deref ?st) (map ?b (dependencyNicksOf e)) = Inr ds"
      by (auto simp: mapCallback_def Let_def nicknameOf_def dependencyNicksOf_def
          split: sum.splits)
    from ok have "\<forall>n \<in> set (dependencyNicksOf e). \<exists>j < length st. ?b n = Some j"
      unfolding mapE_Inr_iff by (auto simp: deref_Inr_iff)
    with i r show ?thesis by simp
  qed
qed

lemma mapCallback_succeeds:
  assumes "i < length st"
    and "\<forall>n \<in> set (dependencyNicksOf e). \<exists>j < length st. (b(nicknameOf e \<mapsto> i)) n = Some j"
  shows "\<exists>r. mapCallback b st e i =
     (Inr r, b(nicknameOf e \<mapsto> i),
      st[i := (st ! i)\<lparr>dependencies := Some (map (b(nicknameOf e \<mapsto> i)) (dependencyNicksOf e))\<rparr>])"
proof (cases "truthy (nthOpt (split CHR '':'' e) 2)")
  case False
  with assms(1) show ?thesis
    by (auto simp: mapCallback_def Let_def nicknameOf_def dependencyNicksOf_def)
next
  case True
  let ?b = "b(nicknameOf e \<mapsto> i)"
  let ?st = "st[i := (st ! i)\<lparr>dependencies := Some (map ?b (dependencyNicksOf e))\<rparr>]"
  from assms(2) have "\<exists>ds. mapE (deref ?st) (map ?b (dependencyNicksOf e)) = Inr ds"
    unfolding mapE_Inr_iff by (auto simp: deref_Inr_iff)
  with assms(1) True show ?thesis
    by (auto simp: mapCallback_def Let_def nicknameOf_def dependencyNicksOf_def
          split: sum.splits)
qed

lemma mapCallback_fails:
  assumes "n \<in> set (dependencyNicksOf e)" and "(b(nicknameOf e \<mapsto> i)) n = None"
  shows "fst (mapCallback b st e i) = Inl TypeError"
proof (cases "mapCallback b st e i")
  case (fields r b' st')
  show ?thesis
  proof (cases r)
    case (Inl err)
    with fields show ?thesis by (simp add: js_error_eq [of err])
  next
    case (Inr x)
    with fields mapCallback_Inr [of b st e i x b' st'] assms show ?thesis by fastforce
  qed
qed

lemma bindNicks_snoc: "bindNicks b (es @ [e]) i = (bindNicks b es i)(nicknameOf e \<mapsto> i + length es)"
  by (induction es arbitrary: b i) auto

lemma dom_bindNicks: "dom (bindNicks b es i) = dom b \<union> nicknameOf ` set es"
  by (induction es arbitrary: b i) auto

lemma bindNicks_bound:
  assumes "\<forall>n j. b n = Some j \<longrightarrow> j < i + length es + m" and "bindNicks b es i n = Some j"
  shows "j < i + length es + m"
  using assms
proof (induction es arbitrary: b i m)
  case Nil
  then show ?case by simp
next
  case (Cons e es)
  have "\<forall>n j. (b(nicknameOf e \<mapsto> i)) n = Some j \<longrightarrow> j < Suc i + length es + m"
    using Cons.prems(1) by auto
  moreover have "bindNicks (b(nicknameOf e \<mapsto> i)) es (Suc i) n = Some j"
    using Cons.prems(2) by simp
  ultimately have "j < Suc i + length es + m" by (rule Cons.IH)
  then show ?case by simp
qed

lemma mapChunks_frame:
  assumes "mapChunks b st es i = (r, st')"
  shows "length st' = length st \<and> map declared st' = map declared st \<and>
         map wrapper st' = map wrapper st \<and>
         (\<forall>j. j < i \<or> i + length es \<le> j \<longrightarrow> st' ! j = st ! j)"
  using assms
proof (induction es arbitrary: b st i r st')
  case Nil
  then show ?case by simp
next
  case (Cons e es)
  obtain r1 b1 st1 where cb: "mapCallback b st e i = (r1, b1, st1)"
    by (cases "mapCallback b st e i") auto
  note f1 = mapCallback_frame [OF cb]
  show ?case
  proof (cases r1)
    case (Inl err)
    with Cons.prems cb have "st' = st1" by simp
    with f1 show ?thesis by auto
  next
    case (Inr x)
    obtain r2 st2 where rec: "mapChunks b1 st1 es (Suc i) = (r2, st2)"
      by (cases "mapChunks b1 st1 es (Suc i)") auto
    with Cons.prems cb Inr have "st' = st2" by (auto split: sum.splits)
    with Cons.IH [OF rec] f1 show ?thesis by auto
  qed
qed

lemma mapChunks_Inr:
  assumes "mapChunks b st es i = (Inr rs, st')" and "i \<le> length st"
  shows "i + length es \<le> length st \<and>
         (\<forall>k < length es. dependencies (st' ! (i + k)) =
            Some (map (bindNicks b (take (Suc k) es) i) (dependencyNicksOf (es ! k))) \<and>
            (\<forall>n \<in> set (dependencyNicksOf (es ! k)).
               \<exists>j < length st. bindNicks b (take (Suc k) es) i n = Some j))"
  using assms
proof (induction es arbitrary: b st i rs st')
  case Nil
  then show ?case by simp
next
  case (Cons e es)
  obtain r1 b1 st1 where cb: "mapCallback b st e i = (r1, b1, st1)"
    by (cases "mapCallback b st e i") auto
  with Cons.prems obtain x where r1: "r1 = Inr x"
    by (cases r1) auto
  obtain r2 st2 where rec: "mapChunks b1 st1 es (Suc i) = (r2, st2)"
    by (cases "mapChunks b1 st1 es (Suc i)") auto
  with Cons.prems cb r1 obtain rs2 where r2: "r2 = Inr rs2" and st': "st' = st2"
    by (cases r2) auto
  note c = mapCallback_Inr [OF cb [unfolded r1]]
  from c have len1: "length st1 = length st" by simp
  from c have "Suc i \<le> length st1" by simp
  note ih = Cons.IH [OF rec [unfolded r2] this]
  note fr = mapChunks_frame [OF rec]
  from c have b1: "b1 = b(nicknameOf e \<mapsto> i)" by simp
  have len: "i + length (e # es) \<le> length st"
    using ih len1 by simp
  have each: "dependencies (st' ! (i + k)) =
        Some (map (bindNicks b (take (Suc k) (e # es)) i) (dependencyNicksOf ((e # es) ! k))) \<and>
        (\<forall>n \<in> set (dependencyNicksOf ((e # es) ! k)).
           \<exists>j < length st. bindNicks b (take (Suc k) (e # es)) i n = Some j)"
    if k: "k < length (e # es)" for k
  proof (cases k)
    case 0
    have "st' ! i = st1 ! i" using fr st' by simp
    moreover have "dependencies (st1 ! i) = Some (map b1 (dependencyNicksOf e))"
      using c by simp
    moreover have "\<forall>n \<in> set (dependencyNicksOf e). \<exists>j < length st. b1 n = Some j"
      using c by blast
    ultimately show ?thesis using 0 b1 by (simp del: fun_upd_apply)
  next
    case (Suc k')
    with k have "k' < length es" by simp
    with ih Suc st' b1 len1 show ?thesis by (simp del: fun_upd_apply)
  qed
  from len each show ?case by blast
qed


lemma mapChunks_unbound:
  assumes "k < length es" and "n \<in> set (dependencyNicksOf (es ! k))"
    and "bindNicks b (take (Suc k) es) i n = None" and "i \<le> length st"
  shows "fst (mapChunks b st es i) = Inl TypeError"
proof (cases "mapChunks b st es i")
  case (Pair r st')
  show ?thesis
  proof (cases r)
    case (Inl err)
    with Pair show ?thesis by (simp add: js_error_eq [of err])
  next
    case (Inr rs)
    with Pair mapChunks_Inr [of b st es i rs st'] assms show ?thesis by fastforce
  qed
qed

lemma mapChunks_succeeds:
  assumes "i + length es \<le> length st"
    and "\<forall>k < length es. \<forall>n \<in> set (dependencyNicksOf (es ! k)).
           \<exists>j < length st. bindNicks b (take (Suc k) es) i n = Some j"
  shows "\<exists>rs st'. mapChunks b st es i = (Inr rs, st')"
  using assms
proof (induction es arbitrary: b st i)
  case Nil
  show ?case by simp
next
  case (Cons e es)
  let ?b = "b(nicknameOf e \<mapsto> i)"
  have i: "i < length st" using Cons.prems(1) by simp
  have "\<forall>n \<in> set (dependencyNicksOf e). \<exists>j < length st. ?b n = Some j"
    using Cons.prems(2) by fastforce
  from mapCallback_succeeds [OF i this] obtain r st1 where
    cb: "mapCallback b st e i = (Inr r, ?b, st1)" and len1: "length st1 = length st"
    by auto
  have "Suc i + length es \<le> length st1" using Cons.prems(1) len1 by simp
  moreover have "\<forall>k < length es. \<forall>n \<in> set (dependencyNicksOf (es ! k)).
           \<exists>j < length st1. bindNicks ?b (take (Suc k) es) (Suc i) n = Some j"
  proof (intro allI impI ballI)
    fix k n assume "k < length es" "n \<in> set (dependencyNicksOf (es ! k))"
    with Cons.prems(2) [rule_format, of "Suc k" n] len1
    show "\<exists>j < length st1. bindNicks ?b (take (Suc k) es) (Suc i) n = Some j" by simp
  qed
  ultimately obtain rs st2 where "mapChunks ?b st1 es (Suc i) = (Inr rs, st2)"
    using Cons.IH by blast
  with cb show ?case by simp
qed

subsection \<open>The wrapper loop and the whole function\<close>

lemma chunkWrapper_Inr_iff:
  "(\<exists>w. chunkWrapper st c = Inr w) \<longleftrightarrow>
   (\<exists>ds. dependencies c = Some ds \<and> (\<forall>d \<in> set ds. \<exists>j < length st. d = Some j))"
proof (cases "dependencies c")
  case None
  then show ?thesis by (simp add: chunkWrapper_def)
next
  case (Some ds)
  have "(\<exists>w. chunkWrapper st c = Inr w) \<longleftrightarrow> (\<exists>deps. mapE (deref st) ds = Inr deps)"
    using Some by (auto simp: chunkWrapper_def split: sum.splits)
  also have "\<dots> \<longleftrightarrow> (\<forall>d \<in> set ds. \<exists>j < length st. d = Some j)"
    unfolding mapE_Inr_iff by (simp add: deref_Inr_iff)
  finally show ?thesis using Some by simp
qed

lemma wrapChunks_done: "\<not> i < length st \<Longrightarrow> wrapChunks i st = (None, st)"
  by (subst wrapChunks.simps) simp

lemma wrapChunks_error:
  "i < length st \<Longrightarrow> chunkWrapper st (st ! i) = Inl e \<Longrightarrow> wrapChunks i st = (Some e, st)"
  by (subst wrapChunks.simps) simp

lemma wrapChunks_step:
  "i < length st \<Longrightarrow> chunkWrapper st (st ! i) = Inr w \<Longrightarrow>
     wrapChunks i st = wrapChunks (Suc i) (st[i := (st ! i)\<lparr>wrapper := Some w\<rparr>])"
  by (subst wrapChunks.simps) simp

lemma wrapChunks_frame:
  "wrapChunks i st = (r, st') \<Longrightarrow>
     length st' = length st \<and> map declared st' = map declared st \<and>
     map dependencies st' = map dependencies st"
proof (induction i st arbitrary: r st' rule: wrapChunks.induct)
  case (1 i st)
  show ?case
  proof (cases "i < length st")
    case False
    with "1.prems" show ?thesis by (simp add: wrapChunks_done)
  next
    case True
    show ?thesis
    proof (cases "chunkWrapper st (st ! i)")
      case (Inl e)
      with True "1.prems" show ?thesis by (simp add: wrapChunks_error)
    next
      case (Inr w)
      let ?st = "st[i := (st ! i)\<lparr>wrapper := Some w\<rparr>]"
      from True Inr "1.prems" have "wrapChunks (Suc i) ?st = (r, st')"
        by (simp add: wrapChunks_step)
      from "1.IH" [OF True Inr this] True show ?thesis
        by (simp add: map_update_same)
    qed
  qed
qed

lemma wrapChunks_None_iff:
  "fst (wrapChunks i st) = None \<longleftrightarrow>
     (\<forall>j. i \<le> j \<and> j < length st \<longrightarrow> (\<exists>w. chunkWrapper st (st ! j) = Inr w))"
proof (induction i st rule: wrapChunks.induct)
  case (1 i st)
  show ?case
  proof (cases "i < length st")
    case False
    then show ?thesis by (auto simp: wrapChunks_done)
  next
    case True
    show ?thesis
    proof (cases "chunkWrapper st (st ! i)")
      case (Inl e)
      with True have "fst (wrapChunks i st) = Some e" by (simp add: wrapChunks_error)
      moreover have "\<not> (\<forall>j. i \<le> j \<and> j < length st \<longrightarrow> (\<exists>w. chunkWrapper st (st ! j) = Inr w))"
        using True Inl by auto
      ultimately show ?thesis by simp
    next
      case (Inr w)
      let ?st = "st[i := (st ! i)\<lparr>wrapper := Some w\<rparr>]"
      have same: "(\<exists>w. chunkWrapper ?st (?st ! j) = Inr w) \<longleftrightarrow> (\<exists>w. chunkWrapper st (st ! j) = Inr w)"
        if "j < length st" for j
        unfolding chunkWrapper_Inr_iff using that by (cases "j = i") simp_all
      have "fst (wrapChunks i st) = fst (wrapChunks (Suc i) ?st)"
        using True Inr by (simp add: wrapChunks_step)
      also have "\<dots> = None \<longleftrightarrow>
          (\<forall>j. Suc i \<le> j \<and> j < length ?st \<longrightarrow> (\<exists>w. chunkWrapper ?st (?st ! j) = Inr w))"
        by (rule "1.IH" [OF True Inr])
      also have "\<dots> \<longleftrightarrow> (\<forall>j. Suc i \<le> j \<and> j < length st \<longrightarrow> (\<exists>w. chunkWrapper st (st ! j) = Inr w))"
        unfolding length_list_update using same by blast
      also have "\<dots> \<longleftrightarrow> (\<forall>j. i \<le> j \<and> j < length st \<longrightarrow> (\<exists>w. chunkWrapper st (st ! j) = Inr w))"
        using Inr by (metis Suc_leI le_neq_implies_less Suc_leD)
      finally show ?thesis .
    qed
  qed
qed

lemma getChunkOptions_Inr:
  assumes "getChunkOptions st raw = (Inr res, st')"
  shows "\<exists>chunkList st1. mapChunks Map.empty st (chunk raw) 0 = (Inr chunkList, st1) \<and>
           wrapChunks 0 st1 = (None, st')"
  using assms
  by (auto simp: getChunkOptions_def split: prod.splits sum.splits option.splits)

lemma getChunkOptions_Inl:
  assumes "fst (mapChunks Map.empty st (chunk raw) 0) = Inl e"
  shows "fst (getChunkOptions st raw) = Inl e"
  using assms
  by (auto simp: getChunkOptions_def split: prod.splits sum.splits option.splits)

lemma getChunkOptions_dependencies:
  assumes "getChunkOptions st raw = (Inr res, st')" and "k < length (chunk raw)"
  shows "k < length st' \<and> length st' = length st \<and>
         dependencies (st' ! k) =
           Some (map (bindNicks Map.empty (take (Suc k) (chunk raw)) 0)
                  (dependencyNicksOf (chunk raw ! k)))"
proof -
  from getChunkOptions_Inr [OF assms(1)] obtain chunkList st1 where
    m: "mapChunks Map.empty st (chunk raw) 0 = (Inr chunkList, st1)"
    and w: "wrapChunks 0 st1 = (None, st')" by blast
  from mapChunks_Inr [OF m] assms(2) have len: "length (chunk raw) \<le> length st"
    and d: "dependencies (st1 ! k) =
           Some (map (bindNicks Map.empty (take (Suc k) (chunk raw)) 0)
                  (dependencyNicksOf (chunk raw ! k)))"
    by simp_all
  from mapChunks_frame [OF m] have len1: "length st1 = length st" by simp
  from wrapChunks_frame [OF w] have len2: "length st' = length st1"
    and deps: "map dependencies st' = map dependencies st1" by simp_all
  have k: "k < length st'" using len len1 len2 assms(2) by simp
  have "dependencies (st' ! k) = map dependencies st' ! k" using k by simp
  also have "\<dots> = dependencies (st1 ! k)" using k len2 deps by simp
  finally show ?thesis using d k len1 len2 by simp
qed

lemma getChunkOptions_declared:
  "map declared (snd (getChunkOptions st raw)) = map declared st"
proof -
  obtain r1 st1 where m: "mapChunks Map.empty st (chunk raw) 0 = (r1, st1)"
    by (cases "mapChunks Map.empty st (chunk raw) 0") auto
  obtain r2 st2 where w: "wrapChunks 0 st1 = (r2, st2)"
    by (cases "wrapChunks 0 st1") auto
  from mapChunks_frame [OF m] have 1: "map declared st1 = map declared st" by simp
  from wrapChunks_frame [OF w] have 2: "map declared st2 = map declared st1" by simp
  show ?thesis
    using m w 1 2
    by (auto simp: getChunkOptions_def split: sum.splits option.splits)
qed

lemma bindNicks_resolved:
  assumes "n \<in> nicknameOf ` set es"
  shows "\<exists>j < length es. bindNicks Map.empty es 0 n = Some j"
proof -
  from assms have "n \<in> dom (bindNicks Map.empty es 0)" by (simp add: dom_bindNicks)
  then obtain j where j: "bindNicks Map.empty es 0 n = Some j" by auto
  have "\<forall>n j. (Map.empty :: string \<rightharpoonup> ref) n = Some j \<longrightarrow> j < 0 + length es + 0" by simp
  from bindNicks_bound [OF this, of n j] j show ?thesis by simp
qed

lemma bindNicks_self:
  assumes "k < length es"
  shows "bindNicks b (take (Suc k) es) i (nicknameOf (es ! k)) = Some (i + k)"
  using assms by (simp add: take_Suc_conv_app_nth bindNicks_snoc)

lemma getChunkOptions_resolved:
  assumes "getChunkOptions st raw = (Inr res, st')" and "k < length (chunk raw)"
    and "n \<in> set (dependencyNicksOf (chunk raw ! k))"
  shows "\<exists>j \<le> k. bindNicks Map.empty (take (Suc k) (chunk raw)) 0 n = Some j"
proof -
  from getChunkOptions_Inr [OF assms(1)] obtain chunkList st1 where
    m: "mapChunks Map.empty st (chunk raw) 0 = (Inr chunkList, st1)" by blast
  from mapChunks_Inr [OF m] assms(2,3) obtain j where
    j: "bindNicks Map.empty (take (Suc k) (chunk raw)) 0 n = Some j" by fastforce
  have "\<forall>n j. (Map.empty :: string \<rightharpoonup> ref) n = Some j
      \<longrightarrow> j < 0 + length (take (Suc k) (chunk raw)) + 0" by simp
  from bindNicks_bound [OF this j] assms(2) have "j \<le> k" by simp
  with j show ?thesis by blast
qed

lemma getChunkOptions_succeeds:
  assumes len: "length (chunk raw) = length st"
    and res: "\<forall>k < length (chunk raw). \<forall>n \<in> set (dependencyNicksOf (chunk raw ! k)).
                n \<in> nicknameOf ` set (take (Suc k) (chunk raw))"
  shows "\<exists>res st'. getChunkOptions st raw = (Inr res, st')"
proof -
  have bound: "\<exists>j < length st. bindNicks Map.empty (take (Suc k) (chunk raw)) 0 n = Some j"
    if "k < length (chunk raw)" and "n \<in> set (dependencyNicksOf (chunk raw ! k))" for k n
  proof -
    from res that have "n \<in> nicknameOf ` set (take (Suc k) (chunk raw))" by blast
    from bindNicks_resolved [OF this] that(1) len show ?thesis by auto
  qed
  have "\<exists>rs st1. mapChunks Map.empty st (chunk raw) 0 = (Inr rs, st1)"
    using len bound by (intro mapChunks_succeeds) auto
  then obtain rs st1 where m: "mapChunks Map.empty st (chunk raw) 0 = (Inr rs, st1)" by blast
  from mapChunks_frame [OF m] have len1: "length st1 = length st" by simp
  have "\<exists>w. chunkWrapper st1 (st1 ! j) = Inr w" if "j < length st1" for j
  proof -
    from that len len1 have j: "j < length (chunk raw)" by simp
    with mapChunks_Inr [OF m] have
      "dependencies (st1 ! j) = Some (map (bindNicks Map.empty (take (Suc j) (chunk raw)) 0)
          (dependencyNicksOf (chunk raw ! j)))" by simp
    moreover have "\<forall>d \<in> set (map (bindNicks Map.empty (take (Suc j) (chunk raw)) 0)
          (dependencyNicksOf (chunk raw ! j))). \<exists>m < length st1. d = Some m"
      using bound [OF j] len1 by auto
    ultimately show ?thesis unfolding chunkWrapper_Inr_iff by blast
  qed
  then have "fst (wrapChunks 0 st1) = None" unfolding wrapChunks_None_iff by blast
  then obtain st2 where "wrapChunks 0 st1 = (None, st2)"
    by (cases "wrapChunks 0 st1") auto
  with m show ?thesis by (simp add: getChunkOptions_def)
qed

lemma wrapChunks_before:
  "wrapChunks i st = (r, st') \<Longrightarrow> j < i \<Longrightarrow> st' ! j = st ! j"
proof (induction i st arbitrary: r st' rule: wrapChunks.induct)
  case (1 i st)
  show ?case
  proof (cases "i < length st")
    case False
    with "1.prems" show ?thesis by (simp add: wrapChunks_done)
  next
    case True
    show ?thesis
    proof (cases "chunkWrapper st (st ! i)")
      case (Inl e)
      with True "1.prems" show ?thesis by (simp add: wrapChunks_error)
    next
      case (Inr w)
      let ?st = "st[i := (st ! i)\<lparr>wrapper := Some w\<rparr>]"
      from True Inr "1.prems" have "wrapChunks (Suc i) ?st = (r, st')"
        by (simp add: wrapChunks_step)
      from "1.IH" [OF True Inr this] "1.prems"(2) show ?thesis by simp
    qed
  qed
qed

subsection \<open>The text of a wrapper\<close>









lemma wrapperBody_cong: "declared a = declared b \<Longrightarrow> wrapperBody a = wrapperBody b"
  by (simp add: declared_def wrapperBody_def)





subsection \<open>What the wrapper loop stores\<close>

text \<open>
  The text of a wrapper depends on the chunk array only through its length and the
  declared fields of the chunks, and on the chunk through its declared fields and its
  dependencies: the wrappers already stored do not change the wrappers still to come.
\<close>

lemma deref_declared:
  assumes "length st = length st'" and "map declared st = map declared st'"
    and "deref st r = Inr c"
  shows "\<exists>c'. deref st' r = Inr c' \<and> declared c' = declared c"
proof -
  from deref_Inr [OF assms(3)] obtain j where j: "j < length st" "r = Some j" "c = st ! j" by blast
  have "map declared st ! j = map declared st' ! j" using assms(2) by simp
  with j assms(1) have "declared (st' ! j) = declared (st ! j)" by simp
  with j assms(1) show ?thesis by (simp add: deref_def)
qed

lemma mapE_deref_declared:
  assumes "length st = length st'" and "map declared st = map declared st'"
    and "mapE (deref st) ds = Inr deps"
  shows "\<exists>deps'. mapE (deref st') ds = Inr deps' \<and> map declared deps' = map declared deps"
  using assms(3)
proof (induction ds arbitrary: deps)
  case Nil
  then show ?case by simp
next
  case (Cons r ds)
  from Cons.prems obtain c cs where c: "deref st r = Inr c" and cs: "mapE (deref st) ds = Inr cs"
    and deps: "deps = c # cs"
    by (auto split: sum.splits)
  from deref_declared [OF assms(1,2) c] obtain c' where
    c': "deref st' r = Inr c'" "declared c' = declared c" by blast
  from Cons.IH [OF cs] obtain cs' where
    cs': "mapE (deref st') ds = Inr cs'" "map declared cs' = map declared cs" by blast
  from c' cs' deps show ?case by simp
qed

lemma mapE_deref_error:
  assumes "length st = length st'"
  shows "(\<exists>e. mapE (deref st) ds = Inl e) \<longleftrightarrow> (\<exists>e. mapE (deref st') ds = Inl e)"
  unfolding mapE_Inl_iff using assms by (auto simp: deref_def split: option.splits)

lemma wrapperHead_declared:
  assumes "declared c = declared c'" and "map declared deps = map declared deps'"
  shows "wrapperHead c deps = wrapperHead c' deps'"
proof -
  have n: "map name deps = map name deps'"
  proof -
    have "map name deps = map fst (map declared deps)" by (simp add: declared_def)
    also have "\<dots> = map fst (map declared deps')" using assms(2) by simp
    also have "\<dots> = map name deps'" by (simp add: declared_def)
    finally show ?thesis .
  qed
  have x: "map exports deps = map exports deps'"
  proof -
    have "map exports deps = map (\<lambda>t. fst (snd (snd t))) (map declared deps)"
      by (simp add: declared_def)
    also have "\<dots> = map (\<lambda>t. fst (snd (snd t))) (map declared deps')" using assms(2) by simp
    also have "\<dots> = map exports deps'" by (simp add: declared_def)
    finally show ?thesis .
  qed
  have a: "map importAs deps = map importAs deps'"
  proof -
    have "map importAs deps = map (\<lambda>t. fst (snd (snd (snd t)))) (map declared deps)"
      by (simp add: declared_def)
    also have "\<dots> = map (\<lambda>t. fst (snd (snd (snd t)))) (map declared deps')" using assms(2) by simp
    also have "\<dots> = map importAs deps'" by (simp add: declared_def)
    finally show ?thesis .
  qed
  have n': "map (\<lambda>d. JSON_stringify (''./'' @ name d @ COMPILED_SUFFIX @ ''.js'')) deps
      = map (\<lambda>d. JSON_stringify (''./'' @ name d @ COMPILED_SUFFIX @ ''.js'')) deps'"
    using arg_cong [OF n, of "map (\<lambda>s. JSON_stringify (''./'' @ s @ COMPILED_SUFFIX @ ''.js''))"]
    by (simp add: comp_def)
  have x': "map (\<lambda>d. ''root.'' @ exports d) deps = map (\<lambda>d. ''root.'' @ exports d) deps'"
    using arg_cong [OF x, of "map (\<lambda>s. ''root.'' @ s)"] by (simp add: comp_def)
  have a': "map (\<lambda>d. joinStr (importAs d)) deps = map (\<lambda>d. joinStr (importAs d)) deps'"
    using arg_cong [OF a, of "map joinStr"] by (simp add: comp_def)
  have e: "exports c = exports c'" using assms(1) by (simp add: declared_def)
  show ?thesis
    unfolding wrapperHead_def Let_def n' x' a' e ..
qed

lemma chunkWrapper_declared:
  assumes len: "length st = length st'" and same: "map declared st = map declared st'"
    and c: "declared c = declared c'" and d: "dependencies c = dependencies c'"
  shows "chunkWrapper st c = chunkWrapper st' c'"
proof (cases "dependencies c")
  case None
  with d show ?thesis by (simp add: chunkWrapper_def)
next
  case (Some ds)
  show ?thesis
  proof (cases "mapE (deref st) ds")
    case (Inl e)
    with mapE_deref_error [OF len, of ds] obtain e' where "mapE (deref st') ds = Inl e'" by blast
    with Inl Some d show ?thesis
      by (simp add: chunkWrapper_def js_error_eq [of e] js_error_eq [of e'])
  next
    case (Inr deps)
    from mapE_deref_declared [OF len same Inr] obtain deps' where
      deps': "mapE (deref st') ds = Inr deps'" "map declared deps' = map declared deps" by blast
    have "wrapperHead c deps = wrapperHead c' deps'"
      using c deps'(2) by (intro wrapperHead_declared) simp_all
    moreover have "wrapperBody c = wrapperBody c'" using c by (rule wrapperBody_cong)
    ultimately show ?thesis using Some d Inr deps'(1) by (simp add: chunkWrapper_def)
  qed
qed

lemma chunkWrapper_wrapper_update:
  assumes "i < length st" and "j < length st"
  shows "chunkWrapper (st[i := (st ! i)\<lparr>wrapper := w\<rparr>]) (st[i := (st ! i)\<lparr>wrapper := w\<rparr>] ! j)
           = chunkWrapper st (st ! j)"
proof (rule chunkWrapper_declared)
  show "length (st[i := (st ! i)\<lparr>wrapper := w\<rparr>]) = length st" by simp
  show "map declared (st[i := (st ! i)\<lparr>wrapper := w\<rparr>]) = map declared st"
    using assms(1) by (simp add: map_update_same)
  show "declared (st[i := (st ! i)\<lparr>wrapper := w\<rparr>] ! j) = declared (st ! j)"
    using assms by (cases "j = i") simp_all
  show "dependencies (st[i := (st ! i)\<lparr>wrapper := w\<rparr>] ! j) = dependencies (st ! j)"
    using assms by (cases "j = i") simp_all
qed

lemma wrapChunks_stores:
  "wrapChunks i st = (None, st') \<Longrightarrow> i \<le> j \<Longrightarrow> j < length st \<Longrightarrow>
     \<exists>w. chunkWrapper st (st ! j) = Inr w \<and> wrapper (st' ! j) = Some w"
proof (induction i st arbitrary: st' rule: wrapChunks.induct)
  case (1 i st)
  from "1.prems" have i: "i < length st" by simp
  show ?case
  proof (cases "chunkWrapper st (st ! i)")
    case (Inl e)
    with i "1.prems" show ?thesis by (simp add: wrapChunks_error)
  next
    case (Inr w)
    let ?st = "st[i := (st ! i)\<lparr>wrapper := Some w\<rparr>]"
    from i Inr "1.prems" have rec: "wrapChunks (Suc i) ?st = (None, st')"
      by (simp add: wrapChunks_step)
    show ?thesis
    proof (cases "j = i")
      case True
      from wrapChunks_before [OF rec, of i] i have "wrapper (st' ! i) = Some w" by simp
      with Inr True show ?thesis by simp
    next
      case False
      with "1.prems" have "Suc i \<le> j" "j < length ?st" by simp_all
      from "1.IH" [OF i Inr rec this] obtain w' where
        "chunkWrapper ?st (?st ! j) = Inr w'" "wrapper (st' ! j) = Some w'" by blast
      moreover have "chunkWrapper ?st (?st ! j) = chunkWrapper st (st ! j)"
        using i "1.prems"(3) by (rule chunkWrapper_wrapper_update)
      ultimately show ?thesis by simp
    qed
  qed
qed

lemma getChunkOptions_wrappers:
  assumes "getChunkOptions st raw = (Inr res, st')" and "k < length st"
  shows "\<exists>w. chunkWrapper st' (st' ! k) = Inr w \<and> wrapper (st' ! k) = Some w"
proof -
  from getChunkOptions_Inr [OF assms(1)] obtain chunkList st1 where
    m: "mapChunks Map.empty st (chunk raw) 0 = (Inr chunkList, st1)"
    and w: "wrapChunks 0 st1 = (None, st')" by blast
  from mapChunks_frame [OF m] have len1: "length st1 = length st" by simp
  from wrapChunks_frame [OF w] have fr: "length st' = length st1"
    "map declared st' = map declared st1" "map dependencies st' = map dependencies st1"
    by simp_all
  have k: "k < length st1" using assms(2) len1 by simp
  from wrapChunks_stores [OF w _ k] obtain x where
    x: "chunkWrapper st1 (st1 ! k) = Inr x" "wrapper (st' ! k) = Some x" by auto
  have "map declared st' ! k = map declared st1 ! k" using fr(2) by simp
  then have dk: "declared (st' ! k) = declared (st1 ! k)" using k fr(1) by simp
  have "map dependencies st' ! k = map dependencies st1 ! k" using fr(3) by simp
  then have pk: "dependencies (st' ! k) = dependencies (st1 ! k)" using k fr(1) by simp
  have "chunkWrapper st' (st' ! k) = chunkWrapper st1 (st1 ! k)"
    using fr(1,2) dk pk by (rule chunkWrapper_declared)
  with x show ?thesis by simp
qed

lemma getChunkOptions_abort:
  assumes "fst (mapChunks Map.empty st (chunk raw) 0) = Inl e"
  shows "map wrapper (snd (getChunkOptions st raw)) = map wrapper st"
proof -
  obtain r st1 where m: "mapChunks Map.empty st (chunk raw) 0 = (r, st1)"
    by (cases "mapChunks Map.empty st (chunk raw) 0") auto
  with assms have "snd (getChunkOptions st raw) = st1"
    by (simp add: getChunkOptions_def)
  with mapChunks_frame [OF m] show ?thesis by simp
qed

section \<open>Properties of the chunk graph\<close>

subsection \<open>No length check\<close>




subsection \<open>Unresolved nicknames\<close>

text \<open>
  C7, as stated (a dependency nickname that is not yet bound to an earlier chunk
  raises a graph inconsistency error), fails: the nickname of a descriptor is bound to
  its own chunk before its dependency list is resolved. The single descriptor
  \<^verbatim>\<open>a:5:a\<close> names the nickname \<^verbatim>\<open>a\<close>, which no earlier descriptor has bound, and the
  call returns without an error.
\<close>

theorem unbound_nickname_counterexample:
  "dependencyNicksOf (chunk selfOnlyDescriptor ! 0) = [''a''] \<and>
   ''a'' \<notin> nicknameOf ` set (take 0 (chunk selfOnlyDescriptor)) \<and>
   \<not> isl (fst (getChunkOptions (take 1 chunks) selfOnlyDescriptor)) \<and>
   map dependencies (snd (getChunkOptions (take 1 chunks) selfOnlyDescriptor)) = [Some [Some 0]]"
proof -
  have "dependencyNicksOf (chunk selfOnlyDescriptor ! 0) = [''a'']"
    by (simp add: selfOnlyDescriptor_def dependencyNicksOf_def nthOpt_def truthy_def toStr_def)
  moreover have "''a'' \<notin> nicknameOf ` set (take 0 (chunk selfOnlyDescriptor))"
    by simp
  moreover have "\<not> isl (fst (getChunkOptions (take 1 chunks) selfOnlyDescriptor))"
    by code_simp
  moreover have
    "map dependencies (snd (getChunkOptions (take 1 chunks) selfOnlyDescriptor)) = [Some [Some 0]]"
    by code_simp
  ultimately show ?thesis by blast
qed

text \<open>
  C7, amended: when the dependency list of a descriptor names a nickname that is
  bound by no descriptor up to and including this one (a forward or unknown
  reference; the own nickname of the descriptor is bound already and raises nothing),
  \<^verbatim>\<open>getChunkOptions\<close> ends with an error and returns no options, and no wrapper has
  been generated: the build task is aborted. The error is not a dedicated graph
  inconsistency error but the uncaught \<^verbatim>\<open>TypeError\<close> of the script, raised where the
  name of an \<^verbatim>\<open>undefined\<close> dependency is read or before.
\<close>

theorem unbound_nickname_fails:
  assumes "k < length (chunk raw)" and "n \<in> set (dependencyNicksOf (chunk raw ! k))"
    and "n \<notin> nicknameOf ` set (take (Suc k) (chunk raw))"
  shows "fst (getChunkOptions st raw) = Inl TypeError \<and>
         map wrapper (snd (getChunkOptions st raw)) = map wrapper st"
proof -
  from assms(3) have "n \<notin> dom (bindNicks Map.empty (take (Suc k) (chunk raw)) 0)"
    by (simp add: dom_bindNicks)
  then have "bindNicks Map.empty (take (Suc k) (chunk raw)) 0 n = None" by auto
  with assms(1,2) have e: "fst (mapChunks Map.empty st (chunk raw) 0) = Inl TypeError"
    by (intro mapChunks_unbound [of k _ n]) simp_all
  from getChunkOptions_Inl [OF e] getChunkOptions_abort [OF e] show ?thesis by simp
qed

theorem unbound_nickname_fails_witness:
  "fst (getChunkOptions twoChunks forwardDescriptors) = Inl TypeError \<and>
   map wrapper (snd (getChunkOptions twoChunks forwardDescriptors)) = map wrapper twoChunks"
proof -
  have k: "0 < length (chunk forwardDescriptors)"
    by (simp add: forwardDescriptors_def)
  have n: "''b'' \<in> set (dependencyNicksOf (chunk forwardDescriptors ! 0))"
    by (simp add: forwardDescriptors_def dependencyNicksOf_def nthOpt_def truthy_def toStr_def)
  have u: "''b'' \<notin> nicknameOf ` set (take (Suc 0) (chunk forwardDescriptors))"
    by (simp add: forwardDescriptors_def nicknameOf_def nthOpt_def toStr_def)
  from unbound_nickname_fails [OF k n u] show ?thesis .
qed

subsection \<open>Which chunks a dependency list can hold\<close>

text \<open>
  C6, as stated (in every returned graph the first chunk has no dependencies and
  every other chunk has a non-empty list of earlier chunks), fails: the lists are
  what the descriptors say. For the descriptors \<^verbatim>\<open>a:5:a\<close> and \<^verbatim>\<open>b:3\<close> the call succeeds,
  the first chunk depends on itself and the second chunk has no dependencies.
\<close>

theorem dependencies_counterexample:
  "\<not> isl (fst (getChunkOptions twoChunks selfDescriptors)) \<and>
   map dependencies (snd (getChunkOptions twoChunks selfDescriptors))
     = [Some [Some 0], Some []]"
  by code_simp

text \<open>
  C6, amended: in every graph that \<^verbatim>\<open>getChunkOptions\<close> returns, the dependencies of the
  chunk of a descriptor are chunks declared at the same or an earlier position (the
  chunk itself or earlier chunks, never a later one), and the list is empty exactly
  when the descriptor names no dependencies, for the first chunk as for every other.
\<close>

theorem dependencies_not_later:
  assumes "getChunkOptions st raw = (Inr res, st')" and "k < length (chunk raw)"
  shows "\<exists>ds. dependencies (st' ! k) = Some ds \<and>
           (ds = [] \<longleftrightarrow> dependencyNicksOf (chunk raw ! k) = []) \<and>
           (\<forall>d \<in> set ds. \<exists>j \<le> k. d = Some j)"
proof -
  let ?b = "bindNicks Map.empty (take (Suc k) (chunk raw)) 0"
  from getChunkOptions_dependencies [OF assms]
  have d: "dependencies (st' ! k) = Some (map ?b (dependencyNicksOf (chunk raw ! k)))" by simp
  have "\<forall>d \<in> set (map ?b (dependencyNicksOf (chunk raw ! k))). \<exists>j \<le> k. d = Some j"
    using getChunkOptions_resolved [OF assms] by auto
  with d show ?thesis by simp
qed

theorem dependencies_not_later_witness:
  "\<not> isl (fst (getChunkOptions twoChunks twoDescriptors)) \<and>
   (\<exists>ds. dependencies (snd (getChunkOptions twoChunks twoDescriptors) ! 1) = Some ds \<and>
         ds \<noteq> [] \<and> (\<forall>d \<in> set ds. \<exists>j \<le> 1. d = Some j))"
proof -
  have ok: "\<not> isl (fst (getChunkOptions twoChunks twoDescriptors))"
    by code_simp
  then obtain res where
    g: "getChunkOptions twoChunks twoDescriptors =
          (Inr res, snd (getChunkOptions twoChunks twoDescriptors))"
    by (cases "getChunkOptions twoChunks twoDescriptors";
        cases "fst (getChunkOptions twoChunks twoDescriptors)") auto
  have k: "1 < length (chunk twoDescriptors)"
    by (simp add: twoDescriptors_def)
  have ne: "dependencyNicksOf (chunk twoDescriptors ! 1) \<noteq> []"
    by (simp add: twoDescriptors_def dependencyNicksOf_def nthOpt_def truthy_def toStr_def)
  from dependencies_not_later [OF g k] ne ok show ?thesis by auto
qed

subsection \<open>A chunk that depends on itself\<close>

text \<open>
  C10: the nickname of a descriptor is bound before its dependency list is resolved.
  So when every nickname in the dependency lists is the nickname of the same or an
  earlier descriptor, and there are as many descriptors as chunks, the call succeeds
  also when a descriptor lists its own nickname, and the dependencies of that chunk
  then contain the chunk itself. No dependency is a chunk of a later position.
\<close>

theorem self_dependency_accepted:
  assumes len: "length (chunk raw) = length st"
    and res: "\<forall>k < length (chunk raw). \<forall>n \<in> set (dependencyNicksOf (chunk raw ! k)).
                n \<in> nicknameOf ` set (take (Suc k) (chunk raw))"
    and k: "k < length (chunk raw)"
    and self: "nicknameOf (chunk raw ! k) \<in> set (dependencyNicksOf (chunk raw ! k))"
  shows "\<not> isl (fst (getChunkOptions st raw)) \<and>
         (\<exists>ds. dependencies (snd (getChunkOptions st raw) ! k) = Some ds \<and>
               Some k \<in> set ds \<and> (\<forall>d \<in> set ds. \<exists>j \<le> k. d = Some j))"
proof -
  let ?b = "bindNicks Map.empty (take (Suc k) (chunk raw)) 0"
  from getChunkOptions_succeeds [OF len res] obtain r st' where
    g: "getChunkOptions st raw = (Inr r, st')" by blast
  from getChunkOptions_dependencies [OF g k]
  have d: "dependencies (st' ! k) = Some (map ?b (dependencyNicksOf (chunk raw ! k)))" by simp
  have "?b (nicknameOf (chunk raw ! k)) = Some k"
    using bindNicks_self [OF k, of Map.empty 0] by simp
  with self have "Some k \<in> set (map ?b (dependencyNicksOf (chunk raw ! k)))"
    by (metis image_eqI set_map)
  moreover have "\<forall>d \<in> set (map ?b (dependencyNicksOf (chunk raw ! k))). \<exists>j \<le> k. d = Some j"
    using getChunkOptions_resolved [OF g k] by auto
  ultimately show ?thesis using g d by simp
qed

theorem self_dependency_accepted_witness:
  "\<not> isl (fst (getChunkOptions twoChunks cycleDescriptors)) \<and>
   (\<exists>ds. dependencies (snd (getChunkOptions twoChunks cycleDescriptors) ! 1) = Some ds \<and>
         Some 1 \<in> set ds \<and> (\<forall>d \<in> set ds. \<exists>j \<le> 1. d = Some j))"
proof -
  have len: "length (chunk cycleDescriptors) = length twoChunks"
    by (simp add: cycleDescriptors_def twoChunks_def chunks_def)
  have res: "\<forall>k < length (chunk cycleDescriptors).
      \<forall>n \<in> set (dependencyNicksOf (chunk cycleDescriptors ! k)).
        n \<in> nicknameOf ` set (take (Suc k) (chunk cycleDescriptors))"
    by (simp add: cycleDescriptors_def dependencyNicksOf_def nicknameOf_def nthOpt_def
        truthy_def toStr_def less_Suc_eq numeral_2_eq_2)
  have k: "1 < length (chunk cycleDescriptors)"
    by (simp add: cycleDescriptors_def)
  have self: "nicknameOf (chunk cycleDescriptors ! 1)
      \<in> set (dependencyNicksOf (chunk cycleDescriptors ! 1))"
    by (simp add: cycleDescriptors_def dependencyNicksOf_def nicknameOf_def nthOpt_def
        truthy_def toStr_def)
  from self_dependency_accepted [OF len res k self] show ?thesis .
qed

subsection \<open>What the call writes to the chunk definitions\<close>

text \<open>
  C8, as stated (the call writes no new field onto the chunk definitions), fails: the
  results are stored in the objects of \<^verbatim>\<open>chunks\<close>, as the comment on that list
  announces. After the call the two chunks have their dependencies and their
  wrappers, which they did not have before.
\<close>

theorem chunk_definitions_written_counterexample:
  "map dependencies twoChunks = [None, None] \<and>
   map dependencies (snd (getChunkOptions twoChunks twoDescriptors))
     = [Some [], Some [Some 0]] \<and>
   map (\<lambda>c. wrapper c = None) twoChunks = [True, True] \<and>
   map (\<lambda>c. wrapper c = None) (snd (getChunkOptions twoChunks twoDescriptors))
     = [False, False] \<and>
   snd (getChunkOptions twoChunks twoDescriptors) \<noteq> twoChunks"
  by code_simp

text \<open>
  C8, amended: \<^verbatim>\<open>getChunkOptions\<close>, with the wrapper generation in it, leaves the
  declared fields \<^verbatim>\<open>name\<close>, \<^verbatim>\<open>entry\<close>, \<^verbatim>\<open>exports\<close>, \<^verbatim>\<open>importAs\<close>, \<^verbatim>\<open>factoryPreamble\<close> and
  \<^verbatim>\<open>factoryPostamble\<close> of every chunk definition unchanged, whether it returns or
  raises an error. It stores its results in the chunk definitions: when it returns,
  the \<^verbatim>\<open>dependencies\<close> of the chunk definition of every descriptor are the chunks to
  which the dependency nicknames of the descriptor are bound when its list is
  resolved, and the \<^verbatim>\<open>wrapper\<close> of every chunk definition is the text that
  \<^verbatim>\<open>chunkWrapper\<close> gives for that chunk.
\<close>

theorem declared_fields_unchanged:
  "map declared (snd (getChunkOptions st raw)) = map declared st \<and>
   (\<not> isl (fst (getChunkOptions st raw)) \<longrightarrow>
      (\<forall>k < length (chunk raw).
         dependencies (snd (getChunkOptions st raw) ! k) =
           Some (map (bindNicks Map.empty (take (Suc k) (chunk raw)) 0)
                  (dependencyNicksOf (chunk raw ! k)))) \<and>
      (\<forall>k < length st. \<exists>w.
         chunkWrapper (snd (getChunkOptions st raw)) (snd (getChunkOptions st raw) ! k) = Inr w \<and>
         wrapper (snd (getChunkOptions st raw) ! k) = Some w))"
proof (intro conjI impI allI)
  show "map declared (snd (getChunkOptions st raw)) = map declared st"
    by (rule getChunkOptions_declared)
next
  fix k
  assume ok: "\<not> isl (fst (getChunkOptions st raw))" and k: "k < length (chunk raw)"
  from ok obtain res where
    g: "getChunkOptions st raw = (Inr res, snd (getChunkOptions st raw))"
    by (cases "getChunkOptions st raw"; cases "fst (getChunkOptions st raw)") auto
  from getChunkOptions_dependencies [OF g k]
  show "dependencies (snd (getChunkOptions st raw) ! k) =
           Some (map (bindNicks Map.empty (take (Suc k) (chunk raw)) 0)
                  (dependencyNicksOf (chunk raw ! k)))" by simp
next
  fix k
  assume ok: "\<not> isl (fst (getChunkOptions st raw))" and k: "k < length st"
  from ok obtain res where
    g: "getChunkOptions st raw = (Inr res, snd (getChunkOptions st raw))"
    by (cases "getChunkOptions st raw"; cases "fst (getChunkOptions st raw)") auto
  from getChunkOptions_wrappers [OF g k]
  show "\<exists>w. chunkWrapper (snd (getChunkOptions st raw)) (snd (getChunkOptions st raw) ! k) = Inr w \<and>
         wrapper (snd (getChunkOptions st raw) ! k) = Some w" .
qed

theorem declared_fields_unchanged_witness:
  "map declared (snd (getChunkOptions twoChunks twoDescriptors)) = map declared twoChunks \<and>
   \<not> isl (fst (getChunkOptions twoChunks twoDescriptors)) \<and>
   dependencies (snd (getChunkOptions twoChunks twoDescriptors) ! 1) = Some [Some 0] \<and>
   wrapper (snd (getChunkOptions twoChunks twoDescriptors) ! 1) = Some blocksWrapper"
proof -
  let ?st = "snd (getChunkOptions twoChunks twoDescriptors)"
  have ok: "\<not> isl (fst (getChunkOptions twoChunks twoDescriptors))"
    by code_simp
  have k: "1 < length (chunk twoDescriptors)" "1 < length twoChunks"
    by (simp_all add: twoDescriptors_def twoChunks_def chunks_def)
  have b: "map (bindNicks Map.empty (take (Suc 1) (chunk twoDescriptors)) 0)
      (dependencyNicksOf (chunk twoDescriptors ! 1)) = [Some 0]"
    by (simp add: twoDescriptors_def dependencyNicksOf_def nicknameOf_def nthOpt_def
        truthy_def toStr_def)
  have w: "chunkWrapper ?st (?st ! 1) = Inr blocksWrapper"
    by code_simp
  from declared_fields_unchanged [of twoChunks twoDescriptors] ok k
  have "map declared ?st = map declared twoChunks"
    and "dependencies (?st ! 1) =
           Some (map (bindNicks Map.empty (take (Suc 1) (chunk twoDescriptors)) 0)
                  (dependencyNicksOf (chunk twoDescriptors ! 1)))"
    and "\<exists>x. chunkWrapper ?st (?st ! 1) = Inr x \<and> wrapper (?st ! 1) = Some x"
    by blast+
  with ok b w show ?thesis by auto
qed

subsection \<open>The wrapper of the first chunk and of the others\<close>



end
